theory Spec2Isabelle
  imports Main
begin

section \<open>The Snake game of \<^verbatim>\<open>hello.py\<close>\<close>

text \<open>
  The game state of class \<^verbatim>\<open>SnakeGame\<close> and its operations \<^verbatim>\<open>reset\<close>,
  \<^verbatim>\<open>spawn_food\<close>, \<^verbatim>\<open>on_key_press\<close>, \<^verbatim>\<open>process_direction\<close>, \<^verbatim>\<open>step\<close> and
  \<^verbatim>\<open>wrap_point\<close>, as functions on a record. Python's unbounded integers are \<open>int\<close>;
  \<open>//\<close> and \<open>%\<close> round towards minus infinity, as \<open>div\<close> and \<open>mod\<close> on \<open>int\<close> do.
  The canvas is output only and is left out; the status line and the timer handle are
  fields of the state.
\<close>

subsection \<open>Configuration constants\<close>

definition GRID_WIDTH :: int where
  "GRID_WIDTH = 20"

definition GRID_HEIGHT :: int where
  "GRID_HEIGHT = 20"

type_synonym direction = "int \<times> int"
type_synonym point = "int \<times> int"

subsection \<open>State\<close>

datatype py_error = IndexError | KeyError

text \<open>
  The three texts \<^verbatim>\<open>update_status\<close> is called with: the help line of \<^verbatim>\<open>reset\<close>,
  the game-over line (which prints the score) and the win line.
\<close>

datatype status_text = HelpText | GameOverText int | WinText

text \<open>
  The deque \<^verbatim>\<open>snake\<close> is a list with the head cell first: \<^verbatim>\<open>appendleft\<close> is
  \<open>#\<close> and \<^verbatim>\<open>pop\<close> is \<open>butlast\<close>. The timer handle \<^verbatim>\<open>after_id\<close> is only ever
  compared with \<^verbatim>\<open>None\<close>, so its string is abstracted to \<open>unit\<close>.
\<close>

record game =
  after_id :: "unit option"
  snake :: "point list"
  direction :: direction
  pending_direction :: direction
  food :: "point option"
  score :: int
  game_over :: bool
  status :: status_text

subsection \<open>Grid\<close>

definition py_range :: "int \<Rightarrow> int list" where
  "py_range n = map int [0..<nat n]"

definition iter_grid :: "point list" where
  "iter_grid = concat (map (\<lambda>x. map (\<lambda>y. (x, y)) (py_range GRID_HEIGHT)) (py_range GRID_WIDTH))"

definition wrap_point :: "point \<Rightarrow> point" where
  "wrap_point cell = (case cell of (x, y) \<Rightarrow> (x mod GRID_WIDTH, y mod GRID_HEIGHT))"

definition in_bounds :: "point \<Rightarrow> bool" where
  "in_bounds cell = (case cell of (x, y) \<Rightarrow> 0 \<le> x \<and> x < GRID_WIDTH \<and> 0 \<le> y \<and> y < GRID_HEIGHT)"

subsection \<open>Operations\<close>

definition update_status :: "status_text \<Rightarrow> game \<Rightarrow> game" where
  "update_status text g = g\<lparr>status := text\<rparr>"

definition schedule_step :: "game \<Rightarrow> game" where
  "schedule_step g = g\<lparr>after_id := Some ()\<rparr>"

text \<open>
  \<^verbatim>\<open>spawn_food\<close> draws with \<^verbatim>\<open>random.choice\<close> from the tuple of the set of empty
  cells. The draw is the parameter \<open>r\<close>: the cell at index \<open>r mod n\<close> of the \<open>n\<close> empty
  cells, listed in grid order (the order of the tuple of a Python set is unspecified; as
  \<open>r\<close> ranges over the naturals every empty cell is drawn, see \<open>spawn_food_any\<close>).
\<close>

definition empty_cells :: "game \<Rightarrow> point list" where
  "empty_cells g = filter (\<lambda>c. c \<notin> set (snake g)) iter_grid"

definition spawn_food :: "nat \<Rightarrow> game \<Rightarrow> game" where
  "spawn_food r g =
     (if empty_cells g = [] then g\<lparr>food := None\<rparr>
      else g\<lparr>food := Some (empty_cells g ! (r mod length (empty_cells g)))\<rparr>)"

definition reset :: "nat \<Rightarrow> game \<Rightarrow> game" where
  "reset r g0 =
     (let g = g0\<lparr>after_id := None\<rparr>;
          center = (GRID_WIDTH div 2, GRID_HEIGHT div 2);
          g = g\<lparr>snake := [center, (fst center - 1, snd center), (fst center - 2, snd center)]\<rparr>;
          g = g\<lparr>direction := (1, 0)\<rparr>;
          g = g\<lparr>pending_direction := (1, 0)\<rparr>;
          g = spawn_food r g;
          g = g\<lparr>score := 0\<rparr>;
          g = g\<lparr>game_over := False\<rparr>;
          g = update_status HelpText g
      in schedule_step g)"

text \<open>The fields \<^verbatim>\<open>__init__\<close> sets before it calls \<^verbatim>\<open>reset\<close>.\<close>

definition fresh :: game where
  "fresh = \<lparr>after_id = None, snake = [], direction = (1, 0), pending_direction = (1, 0),
            food = None, score = 0, game_over = False, status = HelpText\<rparr>"

definition init :: "nat \<Rightarrow> game" where
  "init r = reset r fresh"

definition directions :: "(string \<times> direction) list" where
  "directions = [(''Up'', (0, -1)), (''Down'', (0, 1)), (''Left'', (-1, 0)), (''Right'', (1, 0))]"

definition opposite :: "direction \<Rightarrow> direction" where
  "opposite d = (- fst d, - snd d)"

definition process_direction :: "string \<Rightarrow> game \<Rightarrow> py_error + game" where
  "process_direction keysym g =
     (case map_of directions keysym of
        None \<Rightarrow> Inl KeyError
      | Some new_direction \<Rightarrow>
          if snake g \<noteq> [] \<and> length (snake g) > 1 \<and> new_direction = opposite (direction g)
          then Inr g
          else Inr (g\<lparr>pending_direction := new_direction\<rparr>))"

definition on_key_press :: "nat \<Rightarrow> string \<Rightarrow> game \<Rightarrow> py_error + game" where
  "on_key_press r keysym g =
     (if keysym \<in> set [''Up'', ''Down'', ''Left'', ''Right''] then process_direction keysym g
      else if keysym = ''space'' \<and> game_over g then Inr (reset r g)
      else Inr g)"

text \<open>
  \<^verbatim>\<open>step\<close>: \<^verbatim>\<open>self.snake[0]\<close> raises \<^verbatim>\<open>IndexError\<close> on an empty deque. The draw \<open>r\<close> is
  used when the food is eaten. \<^verbatim>\<open>next_cell == self.food\<close> is false when the food is
  \<^verbatim>\<open>None\<close>.
\<close>

definition step :: "nat \<Rightarrow> game \<Rightarrow> py_error + game" where
  "step r g0 =
     (let g = g0\<lparr>after_id := None\<rparr> in
      if game_over g then Inr g
      else
        let g = g\<lparr>direction := pending_direction g\<rparr> in
        (case snake g of
           [] \<Rightarrow> Inl IndexError
         | (head_x, head_y) # _ \<Rightarrow>
             (case direction g of (dx, dy) \<Rightarrow>
                let next_cell = wrap_point (head_x + dx, head_y + dy) in
                if next_cell \<in> set (snake g)
                then Inr (update_status (GameOverText (score g)) (g\<lparr>game_over := True\<rparr>))
                else
                  let g = g\<lparr>snake := next_cell # snake g\<rparr>;
                      g = (if food g = Some next_cell
                           then spawn_food r (g\<lparr>score := score g + 1\<rparr>)
                           else g\<lparr>snake := butlast (snake g)\<rparr>)
                  in
                    if food g = None
                    then Inr (update_status WinText (g\<lparr>game_over := True\<rparr>))
                    else Inr (schedule_step g))))"

text \<open>
  The cell a tick computes as \<^verbatim>\<open>next_cell\<close> in a state with a non-empty snake: the head
  moved by the pending direction (which the tick makes the direction) and wrapped.
\<close>

definition next_head :: "game \<Rightarrow> point" where
  "next_head g =
     wrap_point (fst (hd (snake g)) + fst (pending_direction g),
                 snd (hd (snake g)) + snd (pending_direction g))"

text \<open>
  The end of a tick that moved the snake: the game is won when no food could be placed,
  otherwise the next tick is scheduled.
\<close>

definition finish :: "game \<Rightarrow> game" where
  "finish g = (if food g = None then update_status WinText (g\<lparr>game_over := True\<rparr>)
               else schedule_step g)"

text \<open>
  The states the program can be in: the one \<^verbatim>\<open>__init__\<close> leaves, and those a timer tick
  or a key press leads to, for any draw and any key. A tick is allowed in every state,
  whether or not the timer is set, so the states of every run are among them.
\<close>

inductive reachable :: "game \<Rightarrow> bool" where
  reach_init: "reachable (init r)"
| reach_step: "reachable g \<Longrightarrow> step r g = Inr g' \<Longrightarrow> reachable g'"
| reach_key: "reachable g \<Longrightarrow> on_key_press r keysym g = Inr g' \<Longrightarrow> reachable g'"

text \<open>
  The food is off the snake, and there is none only when the snake covers the grid.
\<close>

definition food_ok :: "game \<Rightarrow> bool" where
  "food_ok g =
     (case food g of
        None \<Rightarrow> set iter_grid \<subseteq> set (snake g)
      | Some f \<Rightarrow> f \<notin> set (snake g))"

text \<open>The timer firing again and again: one tick per draw of the list, stopping at an error.\<close>

fun ticks :: "nat list \<Rightarrow> game \<Rightarrow> py_error + game" where
  "ticks [] g = Inr g"
| "ticks (r # rs) g = (case step r g of Inl e \<Rightarrow> Inl e | Inr g' \<Rightarrow> ticks rs g')"

text \<open>
  Two states of a game in progress, used as concrete inputs. In \<open>coiled\<close> the snake fills a
  2 by 2 square and turns down into its own tail cell; in \<open>hooked\<close> it turns left into the
  middle of its body.
\<close>

definition coiled :: game where
  "coiled = \<lparr>after_id = Some (), snake = [(0, 0), (1, 0), (1, 1), (0, 1)],
     direction = (-1, 0), pending_direction = (0, 1), food = Some (5, 5), score = 1,
     game_over = False, status = HelpText\<rparr>"

definition hooked :: game where
  "hooked = \<lparr>after_id = Some (), snake = [(1, 1), (1, 0), (0, 0), (0, 1), (0, 2)],
     direction = (0, 1), pending_direction = (-1, 0), food = Some (7, 3), score = 2,
     game_over = False, status = HelpText\<rparr>"

text \<open>The state \<open>hooked\<close> after the tick that ends its game.\<close>

definition crashed :: game where
  "crashed = hooked\<lparr>after_id := None, direction := (- 1, 0), game_over := True,
     status := GameOverText 2\<rparr>"

section \<open>Properties\<close>

subsection \<open>The grid and the food draw\<close>

lemma wrap_point_in_bounds: "in_bounds (wrap_point c)"
  by (cases c) (simp add: wrap_point_def in_bounds_def GRID_WIDTH_def GRID_HEIGHT_def)

lemma set_py_range: "set (py_range n) = {i. 0 \<le> i \<and> i < n}"
proof -
  have "i \<in> set (py_range n) \<longleftrightarrow> 0 \<le> i \<and> i < n" for i
  proof
    assume "i \<in> set (py_range n)"
    then obtain k where "k < nat n" "i = int k"
      by (auto simp: py_range_def)
    then show "0 \<le> i \<and> i < n" by simp
  next
    assume h: "0 \<le> i \<and> i < n"
    then have "nat i < nat n" "i = int (nat i)" by simp_all
    then show "i \<in> set (py_range n)"
      unfolding py_range_def by (metis atLeast0LessThan imageI lessThan_iff set_map set_upt)
  qed
  then show ?thesis by blast
qed

lemma in_iter_grid: "c \<in> set iter_grid \<longleftrightarrow> in_bounds c"
  by (cases c) (auto simp: iter_grid_def in_bounds_def set_py_range)

lemma set_empty_cells: "set (empty_cells g) = {c. in_bounds c} - set (snake g)"
  by (auto simp: empty_cells_def in_iter_grid)

lemma spawn_food_fields [simp]:
  "snake (spawn_food r g) = snake g"
  "after_id (spawn_food r g) = after_id g"
  "direction (spawn_food r g) = direction g"
  "pending_direction (spawn_food r g) = pending_direction g"
  "score (spawn_food r g) = score g"
  "game_over (spawn_food r g) = game_over g"
  "status (spawn_food r g) = status g"
  by (simp_all add: spawn_food_def)

lemma spawn_food_Some:
  assumes "food (spawn_food r g) = Some f"
  shows "f \<in> set (empty_cells g)"
proof -
  from assms have ne: "empty_cells g \<noteq> []"
    by (auto simp: spawn_food_def split: if_splits)
  then have "r mod length (empty_cells g) < length (empty_cells g)" by simp
  then have "empty_cells g ! (r mod length (empty_cells g)) \<in> set (empty_cells g)"
    by (rule nth_mem)
  with assms ne show ?thesis by (simp add: spawn_food_def)
qed

lemma spawn_food_None: "food (spawn_food r g) = None \<longleftrightarrow> empty_cells g = []"
  by (simp add: spawn_food_def)

lemma spawn_food_any:
  assumes "c \<in> set (empty_cells g)"
  shows "\<exists>r. food (spawn_food r g) = Some c"
proof -
  from assms obtain i where "i < length (empty_cells g)" "empty_cells g ! i = c"
    by (auto simp: in_set_conv_nth)
  then have "food (spawn_food i g) = Some c"
    by (auto simp: spawn_food_def)
  then show ?thesis ..
qed


subsection \<open>The branches of a tick and of a key press\<close>

lemma step_game_over: "game_over g \<Longrightarrow> step r g = Inr (g\<lparr>after_id := None\<rparr>)"
  by (simp add: step_def)

lemma step_empty: "\<not> game_over g \<Longrightarrow> snake g = [] \<Longrightarrow> step r g = Inl IndexError"
  by (simp add: step_def)

lemma step_collide:
  assumes "\<not> game_over g" "snake g \<noteq> []" "next_head g \<in> set (snake g)"
  shows "step r g = Inr (g\<lparr>after_id := None, direction := pending_direction g,
                           game_over := True, status := GameOverText (score g)\<rparr>)"
  using assms
  by (cases "snake g"; cases "pending_direction g")
     (auto simp: step_def next_head_def update_status_def Let_def)

lemma step_eat:
  assumes "\<not> game_over g" "snake g \<noteq> []" "next_head g \<notin> set (snake g)"
    "food g = Some (next_head g)"
  shows "step r g = Inr (finish (spawn_food r (g\<lparr>after_id := None,
           direction := pending_direction g, snake := next_head g # snake g,
           score := score g + 1\<rparr>)))"
  using assms
  by (cases "snake g"; cases "pending_direction g")
     (auto simp: step_def next_head_def finish_def Let_def)

lemma step_move:
  assumes "\<not> game_over g" "snake g \<noteq> []" "next_head g \<notin> set (snake g)"
    "food g \<noteq> Some (next_head g)"
  shows "step r g = Inr (finish (g\<lparr>after_id := None,
           direction := pending_direction g, snake := next_head g # butlast (snake g)\<rparr>))"
  using assms
  by (cases "snake g"; cases "pending_direction g")
     (auto simp: step_def next_head_def finish_def Let_def)

lemma finish_fields [simp]:
  "snake (finish g) = snake g"
  "food (finish g) = food g"
  "direction (finish g) = direction g"
  "pending_direction (finish g) = pending_direction g"
  "score (finish g) = score g"
  by (simp_all add: finish_def update_status_def schedule_step_def)

lemma reset_fields [simp]:
  "snake (reset r g) = [(10, 10), (9, 10), (8, 10)]"
  "direction (reset r g) = (1, 0)"
  "pending_direction (reset r g) = (1, 0)"
  "score (reset r g) = 0"
  "game_over (reset r g) = False"
  "after_id (reset r g) = Some ()"
  "status (reset r g) = HelpText"
  by (simp_all add: reset_def Let_def update_status_def schedule_step_def
        GRID_WIDTH_def GRID_HEIGHT_def)

lemma reset_food:
  "food (reset r g) = food (spawn_food r (g\<lparr>snake := [(10, 10), (9, 10), (8, 10)]\<rparr>))"
  by (simp add: reset_def Let_def update_status_def schedule_step_def spawn_food_def
        empty_cells_def GRID_WIDTH_def GRID_HEIGHT_def)


lemma step_cases [consumes 1, case_names over collide eat move]:
  assumes "step r g = Inr g'"
  obtains
    "game_over g" "g' = g\<lparr>after_id := None\<rparr>"
  | "\<not> game_over g" "snake g \<noteq> []" "next_head g \<in> set (snake g)"
    "g' = g\<lparr>after_id := None, direction := pending_direction g,
             game_over := True, status := GameOverText (score g)\<rparr>"
  | "\<not> game_over g" "snake g \<noteq> []" "next_head g \<notin> set (snake g)"
    "food g = Some (next_head g)"
    "g' = finish (spawn_food r (g\<lparr>after_id := None, direction := pending_direction g,
            snake := next_head g # snake g, score := score g + 1\<rparr>))"
  | "\<not> game_over g" "snake g \<noteq> []" "next_head g \<notin> set (snake g)"
    "food g \<noteq> Some (next_head g)"
    "g' = finish (g\<lparr>after_id := None, direction := pending_direction g,
            snake := next_head g # butlast (snake g)\<rparr>)"
proof (cases "game_over g")
  case True
  with assms that(1) show thesis by (simp add: step_game_over)
next
  case no: False
  show thesis
  proof (cases "snake g = []")
    case True
    with no assms show thesis by (simp add: step_empty)
  next
    case ne: False
    show thesis
    proof (cases "next_head g \<in> set (snake g)")
      case True
      with no ne assms that(2) show thesis by (simp add: step_collide)
    next
      case free: False
      show thesis
      proof (cases "food g = Some (next_head g)")
        case True
        with no ne free assms that(3) show thesis by (simp add: step_eat)
      next
        case False
        with no ne free assms that(4) show thesis by (simp add: step_move)
      qed
    qed
  qed
qed

lemma process_direction_cases:
  assumes "process_direction keysym g = Inr g'"
  shows "g' = g \<or> (\<exists>d. g' = g\<lparr>pending_direction := d\<rparr>)"
  using assms by (auto simp: process_direction_def split: option.splits if_splits)

lemma on_key_press_cases:
  assumes "on_key_press r keysym g = Inr g'"
  shows "g' = g \<or> (\<exists>d. g' = g\<lparr>pending_direction := d\<rparr>) \<or> (game_over g \<and> g' = reset r g)"
proof (cases "keysym \<in> set [''Up'', ''Down'', ''Left'', ''Right'']")
  case True
  with assms have "process_direction keysym g = Inr g'"
    by (simp add: on_key_press_def)
  from process_direction_cases [OF this] show ?thesis by blast
next
  case False
  with assms show ?thesis
    by (auto simp: on_key_press_def split: if_splits)
qed

lemma next_head_in_grid: "next_head g \<in> set iter_grid"
  by (simp add: in_iter_grid next_head_def wrap_point_in_bounds)

subsection \<open>The food invariant\<close>

lemma food_ok_spawn: "food_ok (spawn_food r g)"
proof (cases "food (spawn_food r g)")
  case None
  then have "empty_cells g = []" by (simp add: spawn_food_None)
  then have "set iter_grid \<subseteq> set (snake g)"
    by (auto simp: empty_cells_def filter_empty_conv)
  with None show ?thesis by (simp add: food_ok_def)
next
  case (Some f)
  then have "f \<in> set (empty_cells g)" by (rule spawn_food_Some)
  then have "f \<notin> set (snake g)" by (simp add: empty_cells_def)
  with Some show ?thesis by (simp add: food_ok_def)
qed

lemma food_ok_cong:
  "food g' = food g \<Longrightarrow> snake g' = snake g \<Longrightarrow> food_ok g' = food_ok g"
  by (simp add: food_ok_def split: option.splits)

lemma food_ok_reset: "food_ok (reset r g)"
proof -
  let ?h = "spawn_food r (g\<lparr>snake := [(10, 10), (9, 10), (8, 10)]\<rparr>)"
  have "food_ok (reset r g) = food_ok ?h"
    by (rule food_ok_cong) (simp_all add: reset_food)
  then show ?thesis by (simp add: food_ok_spawn)
qed

lemma food_ok_step:
  assumes "food_ok g" "step r g = Inr g'"
  shows "food_ok g'"
  using assms(2)
proof (cases rule: step_cases)
  case over
  then have "food_ok g' = food_ok g" by (intro food_ok_cong) simp_all
  with assms(1) show ?thesis by simp
next
  case collide
  then have "food_ok g' = food_ok g" by (intro food_ok_cong) simp_all
  with assms(1) show ?thesis by simp
next
  case eat
  let ?h = "spawn_food r (g\<lparr>after_id := None, direction := pending_direction g,
            snake := next_head g # snake g, score := score g + 1\<rparr>)"
  have "food_ok g' = food_ok ?h"
    unfolding eat(5) by (rule food_ok_cong) simp_all
  then show ?thesis by (simp add: food_ok_spawn)
next
  case move
  have snk: "snake g' = next_head g # butlast (snake g)" and fd: "food g' = food g"
    by (simp_all add: move(5))
  show ?thesis
  proof (cases "food g")
    case None
    with assms(1) have "set iter_grid \<subseteq> set (snake g)" by (simp add: food_ok_def)
    with next_head_in_grid [of g] move(3) show ?thesis by blast
  next
    case (Some f)
    with assms(1) have "f \<notin> set (snake g)" by (simp add: food_ok_def)
    then have "f \<notin> set (butlast (snake g))" by (auto dest: in_set_butlastD)
    moreover from Some move(4) have "f \<noteq> next_head g" by simp
    ultimately show ?thesis by (simp add: food_ok_def snk fd Some)
  qed
qed

lemma food_ok_process_direction:
  assumes "food_ok g" "process_direction keysym g = Inr g'"
  shows "food_ok g'"
proof -
  from process_direction_cases [OF assms(2)]
  have "food_ok g' = food_ok g" by (intro food_ok_cong) auto
  with assms(1) show ?thesis by simp
qed

lemma food_ok_on_key_press:
  assumes "food_ok g" "on_key_press r keysym g = Inr g'"
  shows "food_ok g'"
proof (cases "g' = reset r g")
  case True
  then show ?thesis by (simp add: food_ok_reset)
next
  case False
  with on_key_press_cases [OF assms(2)]
  have "food_ok g' = food_ok g" by (intro food_ok_cong) auto
  with assms(1) show ?thesis by simp
qed

lemma reachable_food_ok: "reachable g \<Longrightarrow> food_ok g"
proof (induction rule: reachable.induct)
  case (reach_init r)
  show ?case unfolding init_def by (rule food_ok_reset)
next
  case (reach_step g r g')
  from reach_step(3) reach_step(2) show ?case by (rule food_ok_step)
next
  case (reach_key g r keysym g')
  from reach_key(3) reach_key(2) show ?case by (rule food_ok_on_key_press)
qed

subsection \<open>Length, bounds and distinctness of the snake\<close>

lemma length_step:
  assumes "step r g = Inr g'"
  shows "length (snake g) \<le> length (snake g')"
  using assms by (cases rule: step_cases) auto

lemma reachable_length: "reachable g \<Longrightarrow> 3 \<le> length (snake g)"
proof (induction rule: reachable.induct)
  case (reach_init r)
  show ?case by (simp add: init_def)
next
  case (reach_step g r g')
  with length_step [of r g g'] show ?case by simp
next
  case (reach_key g r keysym g')
  from on_key_press_cases [OF reach_key(2)] reach_key(3) show ?case by auto
qed

lemma reachable_nonempty: "reachable g \<Longrightarrow> snake g \<noteq> []"
  by (drule reachable_length) auto

lemma bounds_step:
  assumes "list_all in_bounds (snake g)" "step r g = Inr g'"
  shows "list_all in_bounds (snake g')"
  using assms(2)
proof (cases rule: step_cases)
  case move
  from assms(1) have "list_all in_bounds (butlast (snake g))"
    by (auto simp: list_all_iff dest: in_set_butlastD)
  with move show ?thesis by (simp add: next_head_def wrap_point_in_bounds)
qed (use assms(1) in \<open>simp_all add: next_head_def wrap_point_in_bounds\<close>)

lemma bounds_reset: "list_all in_bounds (snake (reset r g))"
  by (simp add: in_bounds_def GRID_WIDTH_def GRID_HEIGHT_def)

lemma reachable_bounds: "reachable g \<Longrightarrow> list_all in_bounds (snake g)"
proof (induction rule: reachable.induct)
  case (reach_init r)
  show ?case unfolding init_def by (rule bounds_reset)
next
  case (reach_step g r g')
  from reach_step(3) reach_step(2) show ?case by (rule bounds_step)
next
  case (reach_key g r keysym g')
  from on_key_press_cases [OF reach_key(2)] reach_key(3) bounds_reset [of r g]
  show ?case by (auto simp del: reset_fields)
qed

lemma distinct_step:
  assumes "distinct (snake g)" "step r g = Inr g'"
  shows "distinct (snake g')"
  using assms(2)
proof (cases rule: step_cases)
  case move
  from move(3) have "next_head g \<notin> set (butlast (snake g))"
    by (auto dest: in_set_butlastD)
  with assms(1) move show ?thesis by (simp add: distinct_butlast)
qed (use assms(1) in simp_all)

lemma distinct_reset: "distinct (snake (reset r g))"
  by simp

lemma reachable_distinct: "reachable g \<Longrightarrow> distinct (snake g)"
proof (induction rule: reachable.induct)
  case (reach_init r)
  show ?case by (simp add: init_def)
next
  case (reach_step g r g')
  from reach_step(3) reach_step(2) show ?case by (rule distinct_step)
next
  case (reach_key g r keysym g')
  from on_key_press_cases [OF reach_key(2)] reach_key(3) show ?case
    by auto
qed

subsection \<open>Length of the snake across a tick\<close>

text \<open>
  Claim C1. In a state that is not over (and whose snake is not empty, as in every state
  of a game), a tick returns a state; the snake keeps its length when the next head cell
  is not the food cell, is one cell longer when the food is eaten (the next head cell is
  free and is the food cell), and keeps its length when the tick ends the game by a
  collision. Where the food is off the snake, as in every reachable state, the next head
  cell being the food cell is enough for the snake to be one cell longer.
\<close>

theorem C1_tick_length:
  assumes "\<not> game_over g" "snake g \<noteq> []"
  shows "\<exists>g'. step r g = Inr g' \<and>
    (food g \<noteq> Some (next_head g) \<longrightarrow> length (snake g') = length (snake g)) \<and>
    (food g = Some (next_head g) \<and> next_head g \<notin> set (snake g) \<longrightarrow>
       length (snake g') = length (snake g) + 1) \<and>
    (next_head g \<in> set (snake g) \<longrightarrow>
       game_over g' \<and> length (snake g') = length (snake g)) \<and>
    (food_ok g \<and> food g = Some (next_head g) \<longrightarrow>
       length (snake g') = length (snake g) + 1)"
proof (cases "next_head g \<in> set (snake g)")
  case True
  then have "\<not> (food_ok g \<and> food g = Some (next_head g))"
    by (auto simp: food_ok_def)
  with True assms show ?thesis by (simp add: step_collide)
next
  case free: False
  show ?thesis
  proof (cases "food g = Some (next_head g)")
    case True
    with assms free show ?thesis by (simp add: step_eat)
  next
    case False
    with assms free show ?thesis by (simp add: step_move)
  qed
qed

theorem C1_tick_length_witness:
  "\<not> game_over (init 0) \<and> snake (init 0) \<noteq> [] \<and>
   (\<exists>g'. step 5 (init 0) = Inr g' \<and> length (snake g') = 3) \<and>
   \<not> game_over (init 227) \<and> snake (init 227) \<noteq> [] \<and>
   (\<exists>g'. step 5 (init 227) = Inr g' \<and> length (snake g') = 4) \<and>
   \<not> game_over hooked \<and> snake hooked \<noteq> [] \<and>
   (\<exists>g'. step 5 hooked = Inr g' \<and> game_over g' \<and> length (snake g') = 5)"
proof -
  have a: "\<not> game_over (init 0)" "snake (init 0) \<noteq> []"
    and b: "\<not> game_over (init 227)" "snake (init 227) \<noteq> []"
    and c: "\<not> game_over hooked" "snake hooked \<noteq> []"
    by (simp_all add: init_def hooked_def)
  have fa: "food (init 0) \<noteq> Some (next_head (init 0))"
    by code_simp
  have fb: "food (init 227) = Some (next_head (init 227))"
    "next_head (init 227) \<notin> set (snake (init 227))"
    by code_simp+
  have fc: "next_head hooked \<in> set (snake hooked)"
    by code_simp
  have la: "length (snake (init 0)) = 3" and lb: "length (snake (init 227)) = 3"
    and lc: "length (snake hooked) = 5"
    by (simp_all add: init_def hooked_def)
  from C1_tick_length [OF a, of 5] fa la
  have "\<exists>g'. step 5 (init 0) = Inr g' \<and> length (snake g') = 3" by auto
  moreover from C1_tick_length [OF b, of 5] fb lb
  have "\<exists>g'. step 5 (init 227) = Inr g' \<and> length (snake g') = 4" by auto
  moreover from C1_tick_length [OF c, of 5] fc lc
  have "\<exists>g'. step 5 hooked = Inr g' \<and> game_over g' \<and> length (snake g') = 5" by auto
  ultimately show ?thesis using a b c by blast
qed

subsection \<open>Collision\<close>

text \<open>
  Claim C2. In a state that is not over, if the wrapped next head cell is a cell of the
  snake, the tick sets the game-over flag and leaves the snake, the score and the food
  as they were.
\<close>

theorem C2_collision:
  assumes "\<not> game_over g" "snake g \<noteq> []" "next_head g \<in> set (snake g)"
  shows "\<exists>g'. step r g = Inr g' \<and> game_over g' \<and>
    snake g' = snake g \<and> score g' = score g \<and> food g' = food g"
  using assms by (simp add: step_collide)

theorem C2_collision_witness:
  "\<not> game_over hooked \<and> snake hooked \<noteq> [] \<and> next_head hooked = (0, 1) \<and>
   (0, 1) \<in> set (snake hooked) \<and>
   (\<exists>g'. step 3 hooked = Inr g' \<and> game_over g' \<and>
      snake g' = [(1, 1), (1, 0), (0, 0), (0, 1), (0, 2)] \<and> score g' = 2 \<and>
      food g' = Some (7, 3))"
proof -
  have h: "\<not> game_over hooked" "snake hooked \<noteq> []"
    by (simp_all add: hooked_def)
  have n: "next_head hooked = (0, 1)"
    by (simp add: hooked_def next_head_def wrap_point_def GRID_WIDTH_def GRID_HEIGHT_def)
  have m: "next_head hooked \<in> set (snake hooked)"
    unfolding n by (simp add: hooked_def)
  from C2_collision [OF h m, of 3] show ?thesis
    using h n m by (simp add: hooked_def)
qed

text \<open>
  Claim C10. In a state that is not over, if the wrapped next head cell is the snake's
  tail cell, the tick ends the game and the head does not move there: the snake is
  tested for the cell before its tail is removed. This holds whether or not the food is
  on that cell.
\<close>

theorem C10_tail_cell_collides:
  assumes "\<not> game_over g" "snake g \<noteq> []" "next_head g = last (snake g)"
  shows "\<exists>g'. step r g = Inr g' \<and> game_over g' \<and> snake g' = snake g \<and>
    status g' = GameOverText (score g)"
proof -
  from assms(2,3) have "next_head g \<in> set (snake g)" by simp
  with assms(1,2) show ?thesis by (simp add: step_collide)
qed

theorem C10_tail_cell_collides_witness:
  "\<not> game_over coiled \<and> snake coiled \<noteq> [] \<and> next_head coiled = (0, 1) \<and>
   last (snake coiled) = (0, 1) \<and> food coiled \<noteq> Some (0, 1) \<and>
   (\<exists>g'. step 0 coiled = Inr g' \<and> game_over g' \<and>
      snake g' = [(0, 0), (1, 0), (1, 1), (0, 1)] \<and> status g' = GameOverText 1)"
proof -
  have h: "\<not> game_over coiled" "snake coiled \<noteq> []"
    by (simp_all add: coiled_def)
  have n: "next_head coiled = (0, 1)"
    by (simp add: coiled_def next_head_def wrap_point_def GRID_WIDTH_def GRID_HEIGHT_def)
  have l: "last (snake coiled) = (0, 1)"
    by (simp add: coiled_def)
  from n l have m: "next_head coiled = last (snake coiled)" by simp
  from C10_tail_cell_collides [OF h m, of 0] show ?thesis
    using h n l by (simp add: coiled_def)
qed

subsection \<open>Invariants of the reachable states\<close>

text \<open>
  Claim C3. In every reachable state the food cell, when there is one, is not a cell of
  the snake, and there is no food only when the snake covers every cell of the grid.
  \<open>reset\<close> establishes this from any state, and a tick, \<open>process_direction\<close> and a key
  press keep it.
\<close>

theorem C3_food_invariant:
  "(reachable g \<longrightarrow>
      (\<forall>f. food g = Some f \<longrightarrow> f \<notin> set (snake g)) \<and>
      (food g = None \<longrightarrow> set iter_grid \<subseteq> set (snake g))) \<and>
   food_ok (reset r g) \<and>
   (\<forall>g'. food_ok g \<longrightarrow> step r g = Inr g' \<longrightarrow> food_ok g') \<and>
   (\<forall>g'. food_ok g \<longrightarrow> process_direction keysym g = Inr g' \<longrightarrow> food_ok g') \<and>
   (\<forall>g'. food_ok g \<longrightarrow> on_key_press r keysym g = Inr g' \<longrightarrow> food_ok g')"
proof -
  have "(\<forall>f. food g = Some f \<longrightarrow> f \<notin> set (snake g)) \<and>
      (food g = None \<longrightarrow> set iter_grid \<subseteq> set (snake g))" if "reachable g"
    using reachable_food_ok [OF that] by (auto simp: food_ok_def split: option.splits)
  moreover have "food_ok (reset r g)"
    by (rule food_ok_reset)
  moreover have "food_ok g'" if "food_ok g" "step r g = Inr g'" for g'
    using that by (rule food_ok_step)
  moreover have "food_ok g'" if "food_ok g" "process_direction keysym g = Inr g'" for g'
    using that by (rule food_ok_process_direction)
  moreover have "food_ok g'" if "food_ok g" "on_key_press r keysym g = Inr g'" for g'
    using that by (rule food_ok_on_key_press)
  ultimately show ?thesis by blast
qed

theorem C3_food_invariant_witness:
  "reachable (init 227) \<and> food (init 227) = Some (11, 10) \<and>
   (11, 10) \<notin> set (snake (init 227)) \<and> food_ok coiled \<and>
   step 0 (init 227) = Inr \<lparr>after_id = Some (),
     snake = [(11, 10), (10, 10), (9, 10), (8, 10)], direction = (1, 0),
     pending_direction = (1, 0), food = Some (0, 0), score = 1, game_over = False,
     status = HelpText\<rparr> \<and>
   food_ok \<lparr>after_id = Some (),
     snake = [(11, 10), (10, 10), (9, 10), (8, 10)], direction = (1, 0),
     pending_direction = (1, 0), food = Some (0, 0), score = 1, game_over = False,
     status = HelpText\<rparr>"
proof -
  have r: "reachable (init 227)" by (rule reach_init)
  have f: "food (init 227) = Some (11, 10)" by code_simp
  have s: "step 0 (init 227) = Inr \<lparr>after_id = Some (),
     snake = [(11, 10), (10, 10), (9, 10), (8, 10)], direction = (1, 0),
     pending_direction = (1, 0), food = Some (0, 0), score = 1, game_over = False,
     status = HelpText\<rparr>" by code_simp
  have c: "food_ok coiled" by (simp add: food_ok_def coiled_def)
  note t = C3_food_invariant [of "init 227" 0 "''Up''"]
  from t r f have "(11, 10) \<notin> set (snake (init 227))" by blast
  moreover from t r f have "food_ok (init 227)" by (simp add: food_ok_def)
  with t s have "food_ok \<lparr>after_id = Some (),
     snake = [(11, 10), (10, 10), (9, 10), (8, 10)], direction = (1, 0),
     pending_direction = (1, 0), food = Some (0, 0), score = 1, game_over = False,
     status = HelpText\<rparr>" by blast
  ultimately show ?thesis using r f s c by blast
qed

text \<open>
  Claim C5. In every reachable state the snake is not empty and its head and every
  other cell of it lie in the grid: \<open>0 \<le> x < GRID_WIDTH\<close> and \<open>0 \<le> y < GRID_HEIGHT\<close>.
  The wrapped next head cell of a tick lies in the grid for any head cell and any integer
  displacement.
\<close>

theorem C5_in_bounds:
  "(reachable g \<longrightarrow>
      snake g \<noteq> [] \<and> in_bounds (hd (snake g)) \<and> (\<forall>c\<in>set (snake g). in_bounds c)) \<and>
   in_bounds (wrap_point (head_x + dx, head_y + dy)) \<and>
   0 \<le> fst (wrap_point (head_x + dx, head_y + dy)) \<and>
   fst (wrap_point (head_x + dx, head_y + dy)) < GRID_WIDTH \<and>
   0 \<le> snd (wrap_point (head_x + dx, head_y + dy)) \<and>
   snd (wrap_point (head_x + dx, head_y + dy)) < GRID_HEIGHT"
proof -
  have "snake g \<noteq> [] \<and> in_bounds (hd (snake g)) \<and> (\<forall>c\<in>set (snake g). in_bounds c)"
    if "reachable g"
  proof -
    from that have ne: "snake g \<noteq> []" by (rule reachable_nonempty)
    from that have "list_all in_bounds (snake g)" by (rule reachable_bounds)
    then have all: "\<forall>c\<in>set (snake g). in_bounds c" by (simp add: list_all_iff)
    with ne show ?thesis by simp
  qed
  moreover have "in_bounds (wrap_point (head_x + dx, head_y + dy))"
    by (rule wrap_point_in_bounds)
  moreover from this
  have "0 \<le> fst (wrap_point (head_x + dx, head_y + dy))"
    "fst (wrap_point (head_x + dx, head_y + dy)) < GRID_WIDTH"
    "0 \<le> snd (wrap_point (head_x + dx, head_y + dy))"
    "snd (wrap_point (head_x + dx, head_y + dy)) < GRID_HEIGHT"
    by (simp_all add: in_bounds_def split_beta)
  ultimately show ?thesis by blast
qed

theorem C5_in_bounds_witness:
  "reachable (init 0) \<and> in_bounds (hd (snake (init 0))) \<and> hd (snake (init 0)) = (10, 10) \<and>
   in_bounds (wrap_point (19 + 1, 0 + (- 1))) \<and> wrap_point (19 + 1, 0 + (- 1)) = (0, 19)"
proof -
  have r: "reachable (init 0)" by (rule reach_init)
  have h: "hd (snake (init 0)) = (10, 10)" by (simp add: init_def)
  have w: "wrap_point (19 + 1, 0 + (- 1)) = (0, 19)"
    by (simp add: wrap_point_def GRID_WIDTH_def GRID_HEIGHT_def)
  from C5_in_bounds [of "init 0" 19 1 0 "- 1"] r
  have "in_bounds (hd (snake (init 0)))" "in_bounds (wrap_point (19 + 1, 0 + (- 1)))"
    by blast+
  with r h w show ?thesis by blast
qed

text \<open>
  Claim C9. In every reachable state the cells of the snake are pairwise distinct.
  \<open>reset\<close> establishes this from any state, a tick keeps it, and \<open>process_direction\<close> and
  a key press keep it.
\<close>

theorem C9_distinct_cells:
  "(reachable g \<longrightarrow> distinct (snake g)) \<and>
   distinct (snake (reset r g)) \<and>
   (\<forall>g'. distinct (snake g) \<longrightarrow> step r g = Inr g' \<longrightarrow> distinct (snake g')) \<and>
   (\<forall>g'. distinct (snake g) \<longrightarrow> process_direction keysym g = Inr g' \<longrightarrow>
      distinct (snake g')) \<and>
   (\<forall>g'. distinct (snake g) \<longrightarrow> on_key_press r keysym g = Inr g' \<longrightarrow>
      distinct (snake g'))"
proof -
  have "distinct (snake g)" if "reachable g"
    using that by (rule reachable_distinct)
  moreover have "distinct (snake (reset r g))"
    by (rule distinct_reset)
  moreover have "distinct (snake g')" if "distinct (snake g)" "step r g = Inr g'" for g'
    using that by (rule distinct_step)
  moreover have "distinct (snake g')"
    if "distinct (snake g)" "process_direction keysym g = Inr g'" for g'
    using process_direction_cases [OF that(2)] that(1) by auto
  moreover have "distinct (snake g')"
    if "distinct (snake g)" "on_key_press r keysym g = Inr g'" for g'
    using on_key_press_cases [OF that(2)] that(1) by auto
  ultimately show ?thesis by blast
qed

theorem C9_distinct_cells_witness:
  "reachable (init 0) \<and> distinct (snake (init 0)) \<and> distinct (snake coiled) \<and>
   step 7 (init 0) = Inr \<lparr>after_id = Some (),
     snake = [(11, 10), (10, 10), (9, 10)], direction = (1, 0),
     pending_direction = (1, 0), food = Some (0, 0), score = 0, game_over = False,
     status = HelpText\<rparr> \<and>
   distinct [(11, 10), (10, 10), (9, 10) :: point]"
proof -
  have r: "reachable (init 0)" by (rule reach_init)
  have s: "step 7 (init 0) = Inr \<lparr>after_id = Some (),
     snake = [(11, 10), (10, 10), (9, 10)], direction = (1, 0),
     pending_direction = (1, 0), food = Some (0, 0), score = 0, game_over = False,
     status = HelpText\<rparr>" by code_simp
  note t = C9_distinct_cells [of "init 0" 7 "''Up''"]
  from t r have d: "distinct (snake (init 0))" by blast
  with t s have "distinct (snake \<lparr>after_id = Some (),
     snake = [(11, 10), (10, 10), (9, 10)], direction = (1, 0),
     pending_direction = (1, 0), food = Some (0, 0), score = 0, game_over = False,
     status = HelpText\<rparr>)" by blast
  then have "distinct [(11, 10), (10, 10), (9, 10) :: point]" by simp
  moreover have "distinct (snake coiled)" by (simp add: coiled_def)
  ultimately show ?thesis using r s d by blast
qed

subsection \<open>Direction input\<close>

lemma map_of_directions:
  "(keysym, d) \<in> set directions \<Longrightarrow> map_of directions keysym = Some d"
  by (rule map_of_is_SomeI) (simp_all add: directions_def)

text \<open>
  Claim C4. In every reachable state, for each of the four direction keys: when the
  direction of the key is the exact opposite of the current direction (the one the last
  tick applied), the state and so the pending direction stay as they are; any other
  direction becomes the pending direction, and nothing else changes. A key press of that
  key does the same.
\<close>

theorem C4_no_reversal:
  assumes "reachable g" "(keysym, d) \<in> set directions"
  shows "process_direction keysym g =
      Inr (if d = opposite (direction g) then g else g\<lparr>pending_direction := d\<rparr>) \<and>
    on_key_press r keysym g = process_direction keysym g"
proof -
  from assms(1) have "3 \<le> length (snake g)" by (rule reachable_length)
  then have long: "snake g \<noteq> []" "1 < length (snake g)" by auto
  from assms(2) have m: "map_of directions keysym = Some d" by (rule map_of_directions)
  from assms(2) have k: "keysym \<in> set [''Up'', ''Down'', ''Left'', ''Right'']"
    by (auto simp: directions_def)
  from long m have "process_direction keysym g =
      Inr (if d = opposite (direction g) then g else g\<lparr>pending_direction := d\<rparr>)"
    by (simp add: process_direction_def)
  moreover from k have "on_key_press r keysym g = process_direction keysym g"
    by (simp add: on_key_press_def)
  ultimately show ?thesis by simp
qed

theorem C4_no_reversal_witness:
  "reachable (init 0) \<and> direction (init 0) = (1, 0) \<and>
   (''Left'', (- 1, 0)) \<in> set directions \<and> (''Up'', (0, - 1)) \<in> set directions \<and>
   process_direction ''Left'' (init 0) = Inr (init 0) \<and>
   process_direction ''Up'' (init 0) = Inr ((init 0)\<lparr>pending_direction := (0, - 1)\<rparr>)"
proof -
  have r: "reachable (init 0)" by (rule reach_init)
  have d: "direction (init 0) = (1, 0)" by (simp add: init_def)
  have l: "(''Left'', (- 1, 0)) \<in> set directions" and u: "(''Up'', (0, - 1)) \<in> set directions"
    by (simp_all add: directions_def)
  from C4_no_reversal [OF r l, of 0] d
  have "process_direction ''Left'' (init 0) = Inr (init 0)"
    by (simp add: opposite_def)
  moreover from C4_no_reversal [OF r u, of 0] d
  have "process_direction ''Up'' (init 0) = Inr ((init 0)\<lparr>pending_direction := (0, - 1)\<rparr>)"
    by (simp add: opposite_def)
  ultimately show ?thesis using r d l u by blast
qed

subsection \<open>Terminal states and reset\<close>

lemma ticks_game_over:
  "game_over g \<Longrightarrow> ticks rs g = Inr (if rs = [] then g else g\<lparr>after_id := None\<rparr>)"
proof (induction rs arbitrary: g)
  case Nil
  show ?case by simp
next
  case (Cons r rs)
  from Cons.prems have "game_over (g\<lparr>after_id := None\<rparr>)" by simp
  from Cons.IH [OF this] Cons.prems show ?case by (simp add: step_game_over)
qed

text \<open>
  Claim C7. Once the game-over flag is set, a tick returns the state with the snake, the
  direction, the pending direction, the food, the score, the flag and the status as they
  were (it only clears the timer handle), and so does any number of ticks. The flag stays
  set under \<open>process_direction\<close>; a key press that returns a state that is not over is
  the space key and that state is the one \<open>reset\<close> gives, which is not over.
\<close>

theorem C7_terminal:
  assumes "game_over g"
  shows "step r g = Inr (g\<lparr>after_id := None\<rparr>) \<and>
    (\<exists>g'. ticks rs g = Inr g' \<and> snake g' = snake g \<and> direction g' = direction g \<and>
       pending_direction g' = pending_direction g \<and> food g' = food g \<and>
       score g' = score g \<and> game_over g' \<and> status g' = status g) \<and>
    (\<forall>g'. process_direction keysym g = Inr g' \<longrightarrow> game_over g') \<and>
    (\<forall>g'. on_key_press r keysym g = Inr g' \<longrightarrow> \<not> game_over g' \<longrightarrow>
       keysym = ''space'' \<and> g' = reset r g) \<and>
    on_key_press r ''space'' g = Inr (reset r g) \<and>
    \<not> game_over (reset r g)"
proof -
  from assms have "step r g = Inr (g\<lparr>after_id := None\<rparr>)" by (rule step_game_over)
  moreover from assms have "\<exists>g'. ticks rs g = Inr g' \<and> snake g' = snake g \<and>
       direction g' = direction g \<and> pending_direction g' = pending_direction g \<and>
       food g' = food g \<and> score g' = score g \<and> game_over g' \<and> status g' = status g"
    by (simp add: ticks_game_over)
  moreover have "game_over g'" if "process_direction keysym g = Inr g'" for g'
    using process_direction_cases [OF that] assms by auto
  moreover have "keysym = ''space'' \<and> g' = reset r g"
    if k: "on_key_press r keysym g = Inr g'" and n: "\<not> game_over g'" for g'
  proof (cases "keysym \<in> set [''Up'', ''Down'', ''Left'', ''Right'']")
    case True
    with k have "process_direction keysym g = Inr g'" by (simp add: on_key_press_def)
    from process_direction_cases [OF this] assms n show ?thesis by auto
  next
    case False
    with k n assms show ?thesis by (auto simp: on_key_press_def split: if_splits)
  qed
  moreover from assms have "on_key_press r ''space'' g = Inr (reset r g)"
    by (simp add: on_key_press_def)
  moreover have "\<not> game_over (reset r g)" by simp
  ultimately show ?thesis by blast
qed

theorem C7_terminal_witness:
  "step 0 hooked = Inr crashed \<and> game_over crashed \<and> step 1 crashed = Inr crashed \<and>
   ticks [4, 5, 6] crashed = Inr crashed \<and>
   process_direction ''Up'' crashed = Inr (crashed\<lparr>pending_direction := (0, - 1)\<rparr>) \<and>
   game_over (crashed\<lparr>pending_direction := (0, - 1)\<rparr>) \<and>
   on_key_press 1 ''space'' crashed = Inr (reset 1 crashed) \<and>
   \<not> game_over (reset 1 crashed)"
proof -
  have s: "step 0 hooked = Inr crashed" by code_simp
  have o: "game_over crashed" by (simp add: crashed_def)
  have p: "process_direction ''Up'' crashed = Inr (crashed\<lparr>pending_direction := (0, - 1)\<rparr>)"
    by (simp add: process_direction_def directions_def crashed_def hooked_def opposite_def)
  have e: "crashed\<lparr>after_id := None\<rparr> = crashed" by (simp add: crashed_def)
  note t = C7_terminal [OF o, of 1 "[4, 5, 6]" "''Up''"]
  from t e have "step 1 crashed = Inr crashed" by simp
  moreover from ticks_game_over [OF o, of "[4, 5, 6]"]
  have "ticks [4, 5, 6] crashed = Inr crashed"
    by (simp add: e del: ticks.simps)
  moreover from t p have "game_over (crashed\<lparr>pending_direction := (0, - 1)\<rparr>)" by blast
  moreover from t have "on_key_press 1 ''space'' crashed = Inr (reset 1 crashed)"
    "\<not> game_over (reset 1 crashed)" by blast+
  ultimately show ?thesis using s o p by blast
qed

text \<open>
  Claim C8. After \<open>reset\<close>, from any state and for any draw, the snake has exactly three
  cells, the head at the centre of the grid and the other two immediately to its left,
  the direction and the pending direction are \<open>(1, 0)\<close>, the score is 0, the game-over
  flag is false and there is a food cell; the grid has more than three cells.
\<close>

theorem C8_reset:
  "snake (reset r g) =
     [(GRID_WIDTH div 2, GRID_HEIGHT div 2), (GRID_WIDTH div 2 - 1, GRID_HEIGHT div 2),
      (GRID_WIDTH div 2 - 2, GRID_HEIGHT div 2)] \<and>
   snake (reset r g) = [(10, 10), (9, 10), (8, 10)] \<and>
   length (snake (reset r g)) = 3 \<and>
   direction (reset r g) = (1, 0) \<and> pending_direction (reset r g) = (1, 0) \<and>
   score (reset r g) = 0 \<and> game_over (reset r g) = False \<and>
   (\<exists>f. food (reset r g) = Some f) \<and> length iter_grid = 400"
proof -
  let ?h = "g\<lparr>snake := [(10, 10), (9, 10), (8, 10)]\<rparr>"
  have "in_bounds (0, 0)" by (simp add: in_bounds_def GRID_WIDTH_def GRID_HEIGHT_def)
  then have "(0, 0) \<in> set (empty_cells ?h)" by (simp add: set_empty_cells)
  then have "empty_cells ?h \<noteq> []" by auto
  then have "food (spawn_food r ?h) \<noteq> None" by (simp add: spawn_food_None)
  then have "\<exists>f. food (reset r g) = Some f" by (simp add: reset_food)
  moreover have "length iter_grid = 400"
    by (simp add: iter_grid_def py_range_def GRID_WIDTH_def GRID_HEIGHT_def
        length_concat comp_def sum_list_triv)
  ultimately show ?thesis by (simp add: GRID_WIDTH_def GRID_HEIGHT_def)
qed

subsection \<open>The first tick after a reset\<close>

lemma origin_empty:
  assumes "(0, 0) \<notin> set (snake g)"
  shows "food (spawn_food r g) \<noteq> None"
proof -
  have "in_bounds (0, 0)" by (simp add: in_bounds_def GRID_WIDTH_def GRID_HEIGHT_def)
  with assms have "(0, 0) \<in> set (empty_cells g)" by (simp add: set_empty_cells)
  then have "empty_cells g \<noteq> []" by auto
  then show ?thesis by (simp add: spawn_food_None)
qed

lemma finish_game_over: "food g \<noteq> None \<Longrightarrow> game_over (finish g) = game_over g"
  by (auto simp: finish_def schedule_step_def)

lemma reset_food_present: "food (reset r g) \<noteq> None"
  by (simp add: reset_food origin_empty)

text \<open>
  Claim C6 as stated (one tick from a freshly reset game with no direction change moves
  the head one cell right and removes one tail cell, so the length stays 3) fails when
  the food was drawn on the cell right of the head: with the draw 227 the food is on
  \<open>(11, 10)\<close>, and the tick eats it, keeps the tail cell \<open>(8, 10)\<close> and leaves a snake of
  four cells.
\<close>

theorem C6_first_tick_counterexample:
  "init 227 = \<lparr>after_id = Some (), snake = [(10, 10), (9, 10), (8, 10)],
     direction = (1, 0), pending_direction = (1, 0), food = Some (11, 10), score = 0,
     game_over = False, status = HelpText\<rparr> \<and>
   step 0 (init 227) = Inr \<lparr>after_id = Some (),
     snake = [(11, 10), (10, 10), (9, 10), (8, 10)], direction = (1, 0),
     pending_direction = (1, 0), food = Some (0, 0), score = 1, game_over = False,
     status = HelpText\<rparr> \<and>
   length [(11, 10), (10, 10), (9, 10), (8, 10) :: point] \<noteq> 3"
proof -
  have "init 227 = \<lparr>after_id = Some (), snake = [(10, 10), (9, 10), (8, 10)],
     direction = (1, 0), pending_direction = (1, 0), food = Some (11, 10), score = 0,
     game_over = False, status = HelpText\<rparr>"
    by code_simp
  moreover have "step 0 (init 227) = Inr \<lparr>after_id = Some (),
     snake = [(11, 10), (10, 10), (9, 10), (8, 10)], direction = (1, 0),
     pending_direction = (1, 0), food = Some (0, 0), score = 1, game_over = False,
     status = HelpText\<rparr>"
    by code_simp
  ultimately show ?thesis by simp
qed

text \<open>
  Claim C6, amended. From a freshly reset game (from any state, for any draw), one tick
  with no direction change returns a state that is not over, whose head is the cell
  \<open>(11, 10)\<close> one to the right of the old head \<open>(10, 10)\<close>; when the food is not on that
  cell the tail cell is removed and the snake is \<open>[(11, 10), (10, 10), (9, 10)]\<close>, of
  length 3; when the food is on that cell the tail stays and the snake has four cells.
\<close>

theorem C6_first_tick:
  "\<exists>g'. step r' (reset r g) = Inr g' \<and> \<not> game_over g' \<and>
     hd (snake g') = (11, 10) \<and> direction g' = (1, 0) \<and>
     (food (reset r g) \<noteq> Some (11, 10) \<longrightarrow>
        snake g' = [(11, 10), (10, 10), (9, 10)] \<and> length (snake g') = 3 \<and>
        food g' = food (reset r g) \<and> score g' = 0) \<and>
     (food (reset r g) = Some (11, 10) \<longrightarrow>
        snake g' = [(11, 10), (10, 10), (9, 10), (8, 10)] \<and> score g' = 1)"
proof -
  let ?g = "reset r g"
  have n: "next_head ?g = (11, 10)"
    by (simp add: next_head_def wrap_point_def GRID_WIDTH_def GRID_HEIGHT_def)
  have basics: "\<not> game_over ?g" "snake ?g \<noteq> []" "next_head ?g \<notin> set (snake ?g)"
    by (simp_all add: n)
  show ?thesis
  proof (cases "food ?g = Some (11, 10)")
    case True
    let ?e = "?g\<lparr>after_id := None, direction := pending_direction ?g,
      snake := next_head ?g # snake ?g, score := score ?g + 1\<rparr>"
    from True n have "food ?g = Some (next_head ?g)" by simp
    from step_eat [OF basics this, of r']
    have s: "step r' ?g = Inr (finish (spawn_food r' ?e))" .
    have "food (spawn_food r' ?e) \<noteq> None" by (rule origin_empty) (simp add: n)
    from finish_game_over [OF this] have "\<not> game_over (finish (spawn_food r' ?e))"
      by simp
    with s True show ?thesis by (simp add: n)
  next
    case False
    let ?m = "?g\<lparr>after_id := None, direction := pending_direction ?g,
      snake := next_head ?g # butlast (snake ?g)\<rparr>"
    from False n have "food ?g \<noteq> Some (next_head ?g)" by simp
    from step_move [OF basics this, of r']
    have s: "step r' ?g = Inr (finish ?m)" .
    have "food ?m \<noteq> None" by (simp add: reset_food_present)
    from finish_game_over [OF this] have "\<not> game_over (finish ?m)"
      by simp
    with s False show ?thesis by (simp add: n)
  qed
qed

theorem C6_first_tick_witness:
  "food (reset 0 fresh) = Some (0, 0) \<and>
   (\<exists>g'. step 3 (reset 0 fresh) = Inr g' \<and> \<not> game_over g' \<and>
      snake g' = [(11, 10), (10, 10), (9, 10)] \<and> length (snake g') = 3) \<and>
   food (reset 227 fresh) = Some (11, 10) \<and>
   (\<exists>g'. step 3 (reset 227 fresh) = Inr g' \<and> \<not> game_over g' \<and>
      snake g' = [(11, 10), (10, 10), (9, 10), (8, 10)])"
proof -
  have a: "food (reset 0 fresh) = Some (0, 0)" by code_simp
  have b: "food (reset 227 fresh) = Some (11, 10)" by code_simp
  from C6_first_tick [of 3 0 fresh] a
  have "\<exists>g'. step 3 (reset 0 fresh) = Inr g' \<and> \<not> game_over g' \<and>
      snake g' = [(11, 10), (10, 10), (9, 10)] \<and> length (snake g') = 3"
    by auto
  moreover from C6_first_tick [of 3 227 fresh] b
  have "\<exists>g'. step 3 (reset 227 fresh) = Inr g' \<and> \<not> game_over g' \<and>
      snake g' = [(11, 10), (10, 10), (9, 10), (8, 10)]"
    by auto
  ultimately show ?thesis using a b by blast
qed

end
